theory Spec2Isabelle
  imports Main "HOL-Library.Sublist"
begin

section \<open>Strings and the regular expressions of the rewrite rules\<close>

text \<open>
  A JavaScript string is modelled as a \<^typ>\<open>string\<close>, one \<^typ>\<open>char\<close> per code unit;
  the texts covered are those over the 256 characters of \<^typ>\<open>char\<close>.
  The three patterns of the program are built from literal characters, the optional
  \<^verbatim>\<open>s?\<close>, an alternation and a negative lookbehind on a literal, so the regular
  expressions are the terms of that fragment.
\<close>

datatype regex =
    Lit string
  | Opt regex
  | Alt regex regex
  | Seq regex regex
  | NegLookbehind string

text \<open>
  Backtracking matcher. A matcher state is the text before the current position and the
  text after it; \<open>ms r st\<close> lists the states in which \<open>r\<close> can finish when started in
  \<open>st\<close>, in the order in which the backtracking engine tries them (the greedy \<^verbatim>\<open>?\<close>
  first takes its operand, an alternation first takes its left branch).
\<close>

fun ms :: "regex \<Rightarrow> string \<times> string \<Rightarrow> (string \<times> string) list" where
  "ms (Lit w) (b, a) = (if prefix w a then [(b @ w, drop (length w) a)] else [])"
| "ms (Opt r) st = ms r st @ [st]"
| "ms (Alt r1 r2) st = ms r1 st @ ms r2 st"
| "ms (Seq r1 r2) st = concat (map (ms r2) (ms r1 st))"
| "ms (NegLookbehind w) (b, a) = (if suffix w b then [] else [(b, a)])"

text \<open>The match of \<open>pat\<close> that starts exactly after \<open>b\<close>, if there is one: the text consumed.\<close>

definition exec_at :: "regex \<Rightarrow> string \<Rightarrow> string \<Rightarrow> string option" where
  "exec_at pat b a =
     (case ms pat (b, a) of
        [] \<Rightarrow> None
      | (b', a') # _ \<Rightarrow> Some (take (length a - length a') a))"

text \<open>
  The leftmost match at or after the current position: the text skipped, the text
  matched and the text left after the match.
\<close>

fun search :: "regex \<Rightarrow> string \<Rightarrow> string \<Rightarrow> (string \<times> string \<times> string) option" where
  "search pat b [] =
     (case exec_at pat b [] of
        None \<Rightarrow> None
      | Some w \<Rightarrow> Some ([], w, []))"
| "search pat b (c # cs) =
     (case exec_at pat b (c # cs) of
        Some w \<Rightarrow> Some ([], w, drop (length w) (c # cs))
      | None \<Rightarrow> map_option (\<lambda>(g, w, r). (c # g, w, r)) (search pat (b @ [c]) cs))"

text \<open>
  Every match of a global pattern from left to right, with the index at which it starts:
  each search resumes after the previous match, one position further after an empty
  match.
\<close>

function exec_all :: "regex \<Rightarrow> string \<Rightarrow> string \<Rightarrow> (nat \<times> string) list" where
  "exec_all pat b a =
     (case search pat b a of
        None \<Rightarrow> []
      | Some (g, w, r) \<Rightarrow>
          (length (b @ g), w) #
          (if w = [] then (case r of [] \<Rightarrow> [] | c # cs \<Rightarrow> exec_all pat (b @ g @ [c]) cs)
           else exec_all pat (b @ g @ w) r))"
  by pat_completeness auto
termination
proof -
  have shorter: "search pat b a = Some (g, w, r) \<Longrightarrow>
      length r \<le> length a \<and> (w \<noteq> [] \<longrightarrow> length r < length a)" for pat b a g w r
  proof (induction a arbitrary: b g)
    case Nil
    then show ?case by (auto simp: exec_at_def split: option.splits list.splits)
  next
    case (Cons c cs)
    show ?case
    proof (cases "exec_at pat b (c # cs)")
      case None
      with Cons.prems obtain g' where "search pat (b @ [c]) cs = Some (g', w, r)"
        by auto
      from Cons.IH[OF this] show ?thesis by auto
    next
      case (Some w')
      with Cons.prems have "w = w'" "r = drop (length w') (c # cs)" by auto
      then show ?thesis by (cases w') auto
    qed
  qed
  show ?thesis
    by (relation "measure (\<lambda>(pat, b, a). length a)") (auto dest: shorter)
qed

declare exec_all.simps [simp del]

text \<open>
  \<^verbatim>\<open>s.match(pat)\<close> with a global pattern: the array of the matched texts, or
  \<^verbatim>\<open>null\<close> when there is no match.
\<close>

definition str_match :: "string \<Rightarrow> regex \<Rightarrow> string list option" where
  "str_match s pat =
     (case map snd (exec_all pat [] s) of [] \<Rightarrow> None | m # rest \<Rightarrow> Some (m # rest))"

text \<open>
  The replacement template of \<^verbatim>\<open>String.prototype.replace\<close> called with a string to
  search for: \<^verbatim>\<open>$$\<close>, \<^verbatim>\<open>$&\<close>, \<^verbatim>\<open>$`\<close> and \<^verbatim>\<open>$'\<close> are
  expanded, every other character stands for itself (there are no capture groups).
\<close>

fun GetSubstitution :: "string \<Rightarrow> string \<Rightarrow> string \<Rightarrow> string \<Rightarrow> string" where
  "GetSubstitution matched pre post [] = []"
| "GetSubstitution matched pre post [c] = [c]"
| "GetSubstitution matched pre post (c # d # cs) =
     (if c = CHR ''$'' \<and> d = CHR ''$'' then CHR ''$'' # GetSubstitution matched pre post cs
      else if c = CHR ''$'' \<and> d = CHR ''&'' then matched @ GetSubstitution matched pre post cs
      else if c = CHR ''$'' \<and> d = CHR 0x60 then pre @ GetSubstitution matched pre post cs
      else if c = CHR ''$'' \<and> d = CHR 0x27 then post @ GetSubstitution matched pre post cs
      else c # GetSubstitution matched pre post (d # cs))"

text \<open>
  \<^verbatim>\<open>s.replace(w, rep)\<close> with a string \<open>w\<close>: the first occurrence of \<open>w\<close> in \<open>s\<close> is
  replaced by the expanded template; \<open>s\<close> is returned as it is when \<open>w\<close> does not occur.
\<close>

fun replace_from :: "string \<Rightarrow> string \<Rightarrow> string \<Rightarrow> string \<Rightarrow> string" where
  "replace_from b [] w rep = (if w = [] then b @ GetSubstitution w b [] rep else b)"
| "replace_from b (c # cs) w rep =
     (if prefix w (c # cs)
      then b @ GetSubstitution w b (drop (length w) (c # cs)) rep @ drop (length w) (c # cs)
      else replace_from (b @ [c]) cs w rep)"

definition str_replace :: "string \<Rightarrow> string \<Rightarrow> string \<Rightarrow> string" where
  "str_replace s w rep = replace_from [] s w rep"

section \<open>UrlReplacer\<close>

record UrlReplacer =
  pattern :: regex
  replacement :: string

text \<open>
  \<^verbatim>\<open>UrlReplacer.apply\<close>: the \<^verbatim>\<open>while\<close> loop has no bound, so the result is
  \<open>None\<close> when the loop does not end.
\<close>

partial_function (option) UrlReplacer_apply :: "UrlReplacer \<Rightarrow> string \<Rightarrow> string option" where
  "UrlReplacer_apply r result =
     (case str_match result (pattern r) of
        None \<Rightarrow> Some result
      | Some m \<Rightarrow> UrlReplacer_apply r (str_replace result (hd m) (replacement r)))"

declare UrlReplacer_apply.simps [code]

section \<open>ClipboardMonitor\<close>

text \<open>The list built by the constructor; the field is private and never assigned again.\<close>

definition replacers :: "UrlReplacer list" where
  "replacers =
     [\<lparr>pattern = Seq (Lit ''http'') (Seq (Opt (Lit ''s'')) (Seq (Lit ''://'')
          (Seq (NegLookbehind ''fixup'') (Seq (Alt (Lit ''twitter'') (Lit ''x'')) (Lit ''.com''))))),
       replacement = ''https://fixupx.com''\<rparr>,
      \<lparr>pattern = Seq (Lit ''http'') (Seq (Opt (Lit ''s'')) (Seq (Lit ''://'')
          (Seq (NegLookbehind ''dd'') (Lit ''instagram.com'')))),
       replacement = ''https://ddinstagram.com''\<rparr>,
      \<lparr>pattern = Seq (Lit ''http'') (Seq (Opt (Lit ''s'')) (Seq (Lit ''://'')
          (Seq (NegLookbehind ''fixup'') (Lit ''tiktok.com'')))),
       replacement = ''https://fixuptiktok.com''\<rparr>]"

definition detectAndFixLinks :: "string \<Rightarrow> string option" where
  "detectAndFixLinks text =
     (if text = [] then Some text
      else foldl (\<lambda>currentText replacer. Option.bind currentText (UrlReplacer_apply replacer))
             (Some text) replacers)"

text \<open>
  The host: \<^verbatim>\<open>process.platform\<close>, and for each of the two spawned utilities whether the
  spawn went through (\<open>None\<close> and \<open>False\<close> stand for a thrown error).
\<close>

datatype platform = Win32 | Darwin | Linux | OtherPlatform

definition is_white :: "char \<Rightarrow> bool" where
  "is_white c \<longleftrightarrow>
     c \<in> set [CHR 0x09, CHR 0x0A, CHR 0x0B, CHR 0x0C, CHR 0x0D, CHR 0x20, CHR 0xA0]"

definition trim :: "string \<Rightarrow> string" where
  "trim s = rev (dropWhile is_white (rev (dropWhile is_white s)))"

fun readClipboard :: "platform \<Rightarrow> string option \<Rightarrow> string" where
  "readClipboard OtherPlatform spawned = []"
| "readClipboard plat None = []"
| "readClipboard plat (Some output) = trim output"

fun writeClipboard :: "platform \<Rightarrow> bool \<Rightarrow> string \<Rightarrow> bool" where
  "writeClipboard OtherPlatform spawned text = False"
| "writeClipboard plat spawned text = spawned"

record ClipboardMonitor =
  lastClipboardContent :: string
  isMonitoringEnabled :: bool
  pollingInterval :: nat

definition new_ClipboardMonitor :: ClipboardMonitor where
  "new_ClipboardMonitor =
     \<lparr>lastClipboardContent = [], isMonitoringEnabled = True, pollingInterval = 500\<rparr>"

definition toggleMonitoring :: "ClipboardMonitor \<Rightarrow> ClipboardMonitor" where
  "toggleMonitoring m = m\<lparr>isMonitoringEnabled := \<not> isMonitoringEnabled m\<rparr>"

text \<open>What a tick does to the outside: the calls of the two clipboard functions and the
  error it logs after a failed write.\<close>

datatype effect = ReadCall | WriteCall string | WriteFailedLogged

text \<open>One run of \<^verbatim>\<open>checkClipboard\<close>, from the monitor before to the monitor after.\<close>

definition checkClipboard ::
  "platform \<Rightarrow> string option \<Rightarrow> bool \<Rightarrow> ClipboardMonitor \<Rightarrow> (ClipboardMonitor \<times> effect list) option"
where
  "checkClipboard plat rd wr m =
     (if \<not> isMonitoringEnabled m then Some (m, [])
      else
        let clipboardContent = readClipboard plat rd in
        if clipboardContent = [] then Some (m, [ReadCall])
        else if clipboardContent \<noteq> lastClipboardContent m then
          (let m1 = m\<lparr>lastClipboardContent := clipboardContent\<rparr> in
           case detectAndFixLinks clipboardContent of
             None \<Rightarrow> None
           | Some fixedContent \<Rightarrow>
               if fixedContent = [] then Some (m1, [ReadCall])
               else if fixedContent \<noteq> clipboardContent then
                 Some (m1\<lparr>lastClipboardContent := fixedContent\<rparr>,
                       [ReadCall, WriteCall fixedContent] @
                       (if \<not> writeClipboard plat wr fixedContent then [WriteFailedLogged] else []))
               else Some (m1, [ReadCall]))
        else Some (m, [ReadCall]))"

datatype event = Tick platform "string option" bool | Toggle

fun run :: "event list \<Rightarrow> ClipboardMonitor \<Rightarrow> (ClipboardMonitor \<times> effect list) option" where
  "run [] m = Some (m, [])"
| "run (Toggle # es) m = run es (toggleMonitoring m)"
| "run (Tick plat rd wr # es) m =
     (case checkClipboard plat rd wr m of
        None \<Rightarrow> None
      | Some (m1, fx) \<Rightarrow>
          (case run es m1 of
             None \<Rightarrow> None
           | Some (m2, fx') \<Rightarrow> Some (m2, fx @ fx')))"

section \<open>The words of a pattern and single-pass rewriting\<close>

text \<open>
  The patterns have no repetition, so the texts a pattern can match after a given
  context form a finite list, in the order the matcher prefers them.
\<close>

fun words :: "regex \<Rightarrow> string \<Rightarrow> string list" where
  "words (Lit w) b = [w]"
| "words (Opt r) b = words r b @ [[]]"
| "words (Alt r1 r2) b = words r1 b @ words r2 b"
| "words (Seq r1 r2) b = concat (map (\<lambda>u. map ((@) u) (words r2 (b @ u))) (words r1 b))"
| "words (NegLookbehind w) b = (if suffix w b then [] else [[]])"

definition land :: "string \<Rightarrow> string \<Rightarrow> string list \<Rightarrow> (string \<times> string) list" where
  "land b a us = map (\<lambda>u. (b @ u, drop (length u) a)) (filter (\<lambda>u. prefix u a) us)"

definition hit :: "string list \<Rightarrow> string \<Rightarrow> string option" where
  "hit W a = find (\<lambda>w. prefix w a) W"

text \<open>No word of \<open>W\<close> starts inside \<open>b\<close> in the text \<open>b @ a\<close>.\<close>

fun clean :: "string list \<Rightarrow> string \<Rightarrow> string \<Rightarrow> bool" where
  "clean W [] a = True"
| "clean W (c # cs) a = (hit W (c # cs @ a) = None \<and> clean W cs a)"

text \<open>
  The words and the replacement all start with the character \<open>h\<close>, which occurs nowhere
  else in them, and no word is a prefix of the replacement or the other way round.
\<close>

definition anchored :: "char \<Rightarrow> string list \<Rightarrow> string \<Rightarrow> bool" where
  "anchored h W rep \<longleftrightarrow>
     list_all (\<lambda>w. w \<noteq> [] \<and> hd w = h \<and> h \<notin> set (tl w) \<and> \<not> prefix w rep \<and> \<not> prefix rep w) W \<and>
     rep \<noteq> [] \<and> hd rep = h \<and> h \<notin> set (tl rep)"

text \<open>One pass from left to right that replaces every word of \<open>W\<close> it meets.\<close>

fun sweep :: "string list \<Rightarrow> string \<Rightarrow> string \<Rightarrow> string" where
  "sweep W rep [] = []"
| "sweep W rep (c # cs) =
     (case hit W (c # cs) of
        None \<Rightarrow> c # sweep W rep cs
      | Some w \<Rightarrow> rep @ sweep W rep (drop (length w - 1) cs))"

text \<open>
  The text \<open>s\<close> from position \<open>pos\<close> on, with each listed match (start index and matched
  text) replaced by \<open>rep\<close>.
\<close>

fun splice_matches :: "string \<Rightarrow> string \<Rightarrow> (nat \<times> string) list \<Rightarrow> nat \<Rightarrow> string" where
  "splice_matches s rep [] pos = drop pos s"
| "splice_matches s rep ((i, w) # ims) pos =
     take (i - pos) (drop pos s) @ rep @ splice_matches s rep ims (i + length w)"

section \<open>The matcher and the words of a pattern\<close>

lemma prefix_append_drop: "prefix (u @ v) a \<longleftrightarrow> prefix u a \<and> prefix v (drop (length u) a)"
  by (auto simp: prefix_def)

lemma land_seq:
  "concat (map (\<lambda>(b', a'). land b' a' (F b')) (land b a L)) =
     land b a (concat (map (\<lambda>u. map ((@) u) (F (b @ u))) L))"
proof (induction L)
  case Nil
  show ?case by (simp add: land_def)
next
  case (Cons u L)
  have step: "land b a (map ((@) u) (F (b @ u))) =
      (if prefix u a then land (b @ u) (drop (length u) a) (F (b @ u)) else [])"
    by (auto simp: land_def filter_map o_def prefix_append_drop add.commute)
  have "land b a (concat (map (\<lambda>u. map ((@) u) (F (b @ u))) (u # L))) =
      land b a (map ((@) u) (F (b @ u))) @ land b a (concat (map (\<lambda>u. map ((@) u) (F (b @ u))) L))"
    by (simp add: land_def)
  also have "\<dots> = concat (map (\<lambda>(b', a'). land b' a' (F b')) (land b a (u # L)))"
    unfolding step Cons.IH[symmetric] by (simp add: land_def)
  finally show ?case by simp
qed

lemma ms_words: "ms r (b, a) = land b a (words r b)"
proof (induction r arbitrary: b a)
  case (Lit w)
  show ?case by (simp add: land_def)
next
  case (Opt r)
  show ?case by (simp add: Opt.IH land_def)
next
  case (Alt r1 r2)
  show ?case by (simp add: Alt.IH land_def)
next
  case (Seq r1 r2)
  have "ms (Seq r1 r2) (b, a) = concat (map (ms r2) (land b a (words r1 b)))"
    by (simp add: Seq.IH(1))
  also have "map (ms r2) (land b a (words r1 b)) =
      map (\<lambda>(b', a'). land b' a' (words r2 b')) (land b a (words r1 b))"
    by (rule map_cong) (auto simp: Seq.IH(2))
  also have "concat \<dots> = land b a (words (Seq r1 r2) b)"
    by (simp add: land_seq[where F = "words r2"])
  finally show ?case .
next
  case (NegLookbehind w)
  show ?case by (simp add: land_def)
qed

lemma exec_at_words: "exec_at pat b a = hit (words pat b) a"
proof -
  have "(case land b a us of [] \<Rightarrow> None | (b', a') # _ \<Rightarrow> Some (take (length a - length a') a)) =
      find (\<lambda>w. prefix w a) us" for us
  proof (induction us)
    case Nil
    show ?case by (simp add: land_def)
  next
    case (Cons u us)
    show ?case
    proof (cases "prefix u a")
      case True
      then obtain r where "a = u @ r" by (auto simp: prefix_def)
      then show ?thesis by (simp add: land_def)
    next
      case False
      with Cons show ?thesis by (simp add: land_def)
    qed
  qed
  then show ?thesis by (simp add: exec_at_def ms_words hit_def)
qed

section \<open>Words anchored at their first character\<close>

lemma hit_None_iff: "hit W a = None \<longleftrightarrow> (\<forall>w\<in>set W. \<not> prefix w a)"
  by (auto simp: hit_def find_None_iff)

lemma hit_SomeD: "hit W a = Some w \<Longrightarrow> w \<in> set W \<and> prefix w a"
  by (auto simp: hit_def find_Some_iff)

lemma anchored_word:
  "anchored h W rep \<Longrightarrow> w \<in> set W \<Longrightarrow>
     \<exists>t. w = h # t \<and> h \<notin> set t \<and> \<not> prefix w rep \<and> \<not> prefix rep w"
  by (cases w) (auto simp: anchored_def list_all_iff)

lemma anchored_rep: "anchored h W rep \<Longrightarrow> \<exists>t. rep = h # t \<and> h \<notin> set t"
  by (cases rep) (auto simp: anchored_def)

lemma hit_Nil: "anchored h W rep \<Longrightarrow> hit W [] = None"
  by (auto simp: hit_None_iff dest: anchored_word)

lemma hit_other: "anchored h W rep \<Longrightarrow> c \<noteq> h \<Longrightarrow> hit W (c # x) = None"
  by (auto simp: hit_None_iff dest: anchored_word)

lemma clean_append: "clean W (b @ b') a = (clean W b (b' @ a) \<and> clean W b' a)"
  by (induction b) auto

lemma clean_no_anchor: "anchored h W rep \<Longrightarrow> h \<notin> set t \<Longrightarrow> clean W t r"
  by (induction t) (auto simp: hit_other)

lemma prefix_before_anchor: "h \<notin> set t \<Longrightarrow> prefix t (bs @ h # z) \<Longrightarrow> prefix t bs"
proof -
  assume h: "h \<notin> set t" and p: "prefix t (bs @ h # z)"
  from p have "prefix t bs \<or> (\<exists>us. t = bs @ us \<and> prefix us (h # z))"
    by (simp add: prefix_append)
  then show "prefix t bs"
  proof
    assume "prefix t bs" then show ?thesis .
  next
    assume "\<exists>us. t = bs @ us \<and> prefix us (h # z)"
    then obtain us where us: "t = bs @ us" "prefix us (h # z)" by blast
    with h have "us = []" by (cases us) auto
    with us show ?thesis by simp
  qed
qed

lemma clean_swap:
  assumes "anchored h W rep" and "clean W b x"
  shows "clean W b (h # z)"
  using assms(2)
proof (induction b)
  case Nil
  show ?case by simp
next
  case (Cons c bs)
  have "hit W (c # bs @ h # z) = None"
    unfolding hit_None_iff
  proof
    fix w assume w: "w \<in> set W"
    from anchored_word[OF assms(1) w] obtain t where t: "w = h # t" "h \<notin> set t" by blast
    show "\<not> prefix w (c # bs @ h # z)"
    proof
      assume "prefix w (c # bs @ h # z)"
      with t have "c = h" "prefix t (bs @ h # z)" by auto
      with t have "prefix t bs" by (auto dest: prefix_before_anchor)
      with t \<open>c = h\<close> have "prefix w (c # bs @ x)" by (auto simp: prefix_def)
      with Cons.prems w show False by (auto simp: hit_None_iff)
    qed
  qed
  with Cons show ?case by simp
qed

lemma clean_rep: assumes "anchored h W rep" shows "clean W rep r"
proof -
  from anchored_rep[OF assms] obtain t where t: "rep = h # t" "h \<notin> set t" by blast
  have "hit W (rep @ r) = None"
    unfolding hit_None_iff
  proof
    fix w assume w: "w \<in> set W"
    show "\<not> prefix w (rep @ r)"
    proof
      assume "prefix w (rep @ r)"
      moreover have "prefix rep (rep @ r)" by simp
      ultimately have "prefix w rep \<or> prefix rep w" by (rule prefix_same_cases)
      with anchored_word[OF assms w] show False by blast
    qed
  qed
  with t clean_no_anchor[OF assms t(2)] show ?thesis by simp
qed

lemma clean_replaced:
  "anchored h W rep \<Longrightarrow> clean W b x \<Longrightarrow> clean W (b @ rep) r"
  using anchored_rep[of h W rep] clean_swap[of h W rep b x] clean_rep[of h W rep r]
  by (auto simp: clean_append)

lemma hit_split:
  assumes "anchored h W rep" and "hit W (c # cs) = Some w"
  shows "w \<in> set W \<and> w \<noteq> [] \<and> c # cs = w @ drop (length w - 1) cs"
proof -
  from hit_SomeD[OF assms(2)] have w: "w \<in> set W" "prefix w (c # cs)" by auto
  from anchored_word[OF assms(1) w(1)] obtain t where t: "w = h # t" by blast
  from w(2) obtain r where "c # cs = w @ r" by (auto simp: prefix_def)
  with t w show ?thesis by auto
qed

section \<open>Searching with an anchored pattern\<close>

lemma exec_all_Nil:
  assumes ex: "\<And>b a. exec_at pat b a = hit W a" and an: "anchored h W rep"
  shows "exec_all pat b [] = []"
  by (simp add: exec_all.simps[of pat b "[]"] ex hit_Nil[OF an])

lemma exec_all_miss:
  assumes ex: "\<And>b a. exec_at pat b a = hit W a" and miss: "hit W (c # cs) = None"
  shows "exec_all pat b (c # cs) = exec_all pat (b @ [c]) cs"
proof (cases "search pat (b @ [c]) cs")
  case None
  then show ?thesis
    by (simp add: exec_all.simps[of pat b "c # cs"] exec_all.simps[of pat "b @ [c]" cs] ex miss)
next
  case (Some x)
  then show ?thesis
    by (cases x)
      (simp add: exec_all.simps[of pat b "c # cs"] exec_all.simps[of pat "b @ [c]" cs] ex miss
         split: list.splits)
qed

lemma exec_all_hit:
  assumes ex: "\<And>b a. exec_at pat b a = hit W a" and an: "anchored h W rep"
    and found: "hit W (c # cs) = Some w"
  shows "exec_all pat b (c # cs) = (length b, w) # exec_all pat (b @ w) (drop (length w - 1) cs)"
proof -
  from hit_split[OF an found] have "w \<noteq> []" by simp
  then have "drop (length w) (c # cs) = drop (length w - 1) cs" by (cases w) auto
  with \<open>w \<noteq> []\<close> show ?thesis
    by (simp add: exec_all.simps[of pat b "c # cs"] ex found)
qed

lemma exec_all_skip:
  assumes ex: "\<And>b a. exec_at pat b a = hit W a"
  shows "clean W b a \<Longrightarrow> exec_all pat b0 (b @ a) = exec_all pat (b0 @ b) a"
proof (induction b arbitrary: b0)
  case Nil
  show ?case by simp
next
  case (Cons c bs)
  then have "exec_all pat b0 ((c # bs) @ a) = exec_all pat (b0 @ [c]) (bs @ a)"
    by (simp add: exec_all_miss[OF ex])
  also have "\<dots> = exec_all pat ((b0 @ [c]) @ bs) a"
    using Cons by simp
  finally show ?case by simp
qed

lemma str_match_None_iff:
  assumes ex: "\<And>b a. exec_at pat b a = hit W a" and an: "anchored h W rep"
  shows "str_match s pat = None \<longleftrightarrow> clean W s []"
proof -
  have "exec_all pat b a = [] \<longleftrightarrow> clean W a []" for b a
  proof (induction a arbitrary: b)
    case Nil
    show ?case by (simp add: exec_all_Nil[OF ex an])
  next
    case (Cons c cs)
    show ?case
    proof (cases "hit W (c # cs)")
      case None
      with Cons show ?thesis by (simp add: exec_all_miss[OF ex])
    next
      case (Some w)
      then show ?thesis by (simp add: exec_all_hit[OF ex an])
    qed
  qed
  from this[of "[]" s] show ?thesis by (auto simp: str_match_def split: list.splits)
qed

section \<open>Replacing the first occurrence\<close>

lemma GetSubstitution_plain:
  "CHR ''$'' \<notin> set rep \<Longrightarrow> GetSubstitution matched pre post rep = rep"
  by (induction matched pre post rep rule: GetSubstitution.induct) auto

lemma replace_from_first:
  assumes an: "anchored h W rep" and w: "w \<in> set W" and plain: "CHR ''$'' \<notin> set rep"
  shows "clean W b (w @ r) \<Longrightarrow> replace_from b0 (b @ w @ r) w rep = b0 @ b @ rep @ r"
proof (induction b arbitrary: b0)
  case Nil
  from anchored_word[OF an w] obtain t where "w = h # t" by blast
  then show ?case by (simp add: GetSubstitution_plain[OF plain])
next
  case (Cons c bs)
  from Cons.prems w have "\<not> prefix w (c # bs @ w @ r)"
    by (auto simp: hit_None_iff)
  with Cons show ?case by simp
qed

section \<open>The loop of a rule with an anchored pattern\<close>

lemma apply_sweep:
  assumes ex: "\<And>b a. exec_at (pattern R) b a = hit W a"
    and an: "anchored h W (replacement R)"
    and plain: "CHR ''$'' \<notin> set (replacement R)"
  shows "clean W b a \<Longrightarrow> UrlReplacer_apply R (b @ a) = Some (b @ sweep W (replacement R) a)"
proof (induction a arbitrary: b rule: length_induct)
  case (1 a)
  show ?case
  proof (cases a)
    case Nil
    with 1(2) have "str_match (b @ a) (pattern R) = None"
      by (simp add: str_match_None_iff[OF ex an])
    with Nil show ?thesis by (simp add: UrlReplacer_apply.simps[of R b])
  next
    case (Cons c cs)
    show ?thesis
    proof (cases "hit W (c # cs)")
      case None
      with 1(2) Cons have "clean W (b @ [c]) cs" by (simp add: clean_append)
      moreover have "length cs < length a" using Cons by simp
      ultimately have "UrlReplacer_apply R ((b @ [c]) @ cs) =
          Some ((b @ [c]) @ sweep W (replacement R) cs)" using 1(1) by blast
      with None Cons show ?thesis by simp
    next
      case (Some w)
      define r where "r = drop (length w - 1) cs"
      from hit_split[OF an Some] have w: "w \<in> set W" "w \<noteq> []" "c # cs = w @ r"
        by (simp_all add: r_def)
      have cl: "clean W b (w @ r)" using 1(2) Cons w by simp
      have "exec_all (pattern R) [] (b @ a) = exec_all (pattern R) b (c # cs)"
        using exec_all_skip[OF ex, of b a "[]"] 1(2) Cons by simp
      also have "\<dots> = (length b, w) # exec_all (pattern R) (b @ w) r"
        by (simp add: exec_all_hit[OF ex an Some] r_def)
      finally have m: "str_match (b @ a) (pattern R) =
          Some (w # map snd (exec_all (pattern R) (b @ w) r))"
        by (simp add: str_match_def)
      have "str_replace (b @ a) w (replacement R) = (b @ replacement R) @ r"
        using replace_from_first[OF an w(1) plain cl, of "[]"] Cons w
        by (simp add: str_replace_def)
      with m have "UrlReplacer_apply R (b @ a) = UrlReplacer_apply R ((b @ replacement R) @ r)"
        by (simp add: UrlReplacer_apply.simps[of R "b @ a"])
      also have "\<dots> = Some ((b @ replacement R) @ sweep W (replacement R) r)"
      proof -
        have "length r < length a" using Cons w by (simp add: r_def)
        moreover have "clean W (b @ replacement R) r"
          by (rule clean_replaced[OF an cl])
        ultimately show ?thesis using 1(1) by blast
      qed
      finally show ?thesis using Some Cons by (simp add: r_def)
    qed
  qed
qed

lemma splice_sweep:
  assumes ex: "\<And>b a. exec_at pat b a = hit W a" and an: "anchored h W rep"
  shows "splice_matches (p @ q @ a) rep (exec_all pat (p @ q) a) (length p) = q @ sweep W rep a"
proof (induction a arbitrary: p q rule: length_induct)
  case (1 a)
  show ?case
  proof (cases a)
    case Nil
    then show ?thesis by (simp add: exec_all_Nil[OF ex an])
  next
    case (Cons c cs)
    show ?thesis
    proof (cases "hit W (c # cs)")
      case None
      have "length cs < length a" using Cons by simp
      with 1 have "splice_matches (p @ (q @ [c]) @ cs) rep (exec_all pat (p @ (q @ [c])) cs) (length p) =
          (q @ [c]) @ sweep W rep cs"
        by blast
      moreover have "exec_all pat (p @ q) (c # cs) = exec_all pat (p @ q @ [c]) cs"
        using exec_all_miss[OF ex None, of "p @ q"] by simp
      ultimately show ?thesis using None Cons by simp
    next
      case (Some w)
      define r where "r = drop (length w - 1) cs"
      from hit_split[OF an Some] have w: "w \<in> set W" "w \<noteq> []" "c # cs = w @ r"
        by (simp_all add: r_def)
      have "length r < length a" using Cons w by (simp add: r_def)
      with 1 have "splice_matches ((p @ q @ w) @ [] @ r) rep (exec_all pat ((p @ q @ w) @ []) r)
          (length (p @ q @ w)) = [] @ sweep W rep r" by blast
      then have ih: "splice_matches (p @ q @ w @ r) rep (exec_all pat (p @ q @ w) r)
          (length p + length q + length w) = sweep W rep r" by (simp add: add.assoc)
      have "exec_all pat (p @ q) a = (length (p @ q), w) # exec_all pat ((p @ q) @ w) r"
        using exec_all_hit[OF ex an Some, of "p @ q"] Cons by (simp add: r_def)
      then have "splice_matches (p @ q @ a) rep (exec_all pat (p @ q) a) (length p) =
          q @ rep @ sweep W rep r"
        using ih Cons w by simp
      with Some Cons show ?thesis by (simp add: r_def)
    qed
  qed
qed

lemma sweep_keeps_clean:
  assumes an: "anchored h W rep" and an': "anchored h' W' rep"
  shows "clean W' (b @ a) [] \<Longrightarrow> clean W' (b @ sweep W rep a) []"
proof (induction a arbitrary: b rule: length_induct)
  case (1 a)
  show ?case
  proof (cases a)
    case Nil
    with 1(2) show ?thesis by simp
  next
    case (Cons c cs)
    show ?thesis
    proof (cases "hit W (c # cs)")
      case None
      have "length cs < length a" using Cons by simp
      moreover have "clean W' ((b @ [c]) @ cs) []" using 1(2) Cons by simp
      ultimately have "clean W' ((b @ [c]) @ sweep W rep cs) []"
        using 1(1) by blast
      with None Cons show ?thesis by simp
    next
      case (Some w)
      define r where "r = drop (length w - 1) cs"
      from hit_split[OF an Some] have w: "w \<in> set W" "w \<noteq> []" "c # cs = w @ r"
        by (simp_all add: r_def)
      have "length r < length a" using Cons w by (simp add: r_def)
      moreover have "clean W' ((b @ rep) @ r) []"
      proof -
        from 1(2) Cons w have "clean W' b (w @ r)" "clean W' r []"
          by (simp_all add: clean_append)
        with clean_replaced[OF an', of b "w @ r" r] show ?thesis
          by (simp add: clean_append)
      qed
      ultimately have "clean W' ((b @ rep) @ sweep W rep r) []" using 1(1) by blast
      with Some Cons show ?thesis by (simp add: r_def)
    qed
  qed
qed

section \<open>The three rules of the monitor\<close>

lemma replacers_cases:
  "r \<in> set replacers \<Longrightarrow> r = replacers ! 0 \<or> r = replacers ! 1 \<or> r = replacers ! 2"
  by (auto simp: replacers_def)

lemma replacers_list: "replacers = [replacers ! 0, replacers ! 1, replacers ! 2]"
  by (simp add: replacers_def)

lemma fixed_words: "r \<in> set replacers \<Longrightarrow> words (pattern r) b = words (pattern r) []"
  by (auto simp: replacers_def suffix_to_prefix)

lemma fixed_anchored:
  "r \<in> set replacers \<Longrightarrow> r' \<in> set replacers \<Longrightarrow>
     anchored (CHR ''h'') (words (pattern r) []) (replacement r')"
  by (auto simp: replacers_def anchored_def suffix_to_prefix)

lemma fixed_plain: "r \<in> set replacers \<Longrightarrow> CHR ''$'' \<notin> set (replacement r)"
  by (auto simp: replacers_def)

lemma fixed_exec:
  "r \<in> set replacers \<Longrightarrow> exec_at (pattern r) b a = hit (words (pattern r) []) a"
  using fixed_words[of r b] by (simp add: exec_at_words)

lemma fixed_apply:
  assumes "r \<in> set replacers"
  shows "UrlReplacer_apply r s = Some (sweep (words (pattern r) []) (replacement r) s)"
  using apply_sweep[of r "words (pattern r) []" "CHR ''h''" "[]" s]
    fixed_exec[OF assms] fixed_anchored[OF assms assms] fixed_plain[OF assms]
  by simp

lemma fixed_splice:
  assumes "r \<in> set replacers"
  shows "splice_matches s (replacement r) (exec_all (pattern r) [] s) 0 =
     sweep (words (pattern r) []) (replacement r) s"
  using splice_sweep[of "pattern r" "words (pattern r) []" "CHR ''h''" "replacement r" "[]" "[]" s]
    fixed_exec[OF assms] fixed_anchored[OF assms assms]
  by simp

lemma apply_exit:
  assumes run: "UrlReplacer_apply r s = Some y"
  shows "str_match y (pattern r) = None"
proof (rule UrlReplacer_apply.raw_induct[where P = "\<lambda>r s y. str_match y (pattern r) = None", OF _ run])
  fix f r s y
  assume IH: "\<And>r s y. f r s = Some y \<Longrightarrow> str_match y (pattern r) = None"
    and eq: "(case str_match s (pattern r) of None \<Rightarrow> Some s
      | Some m \<Rightarrow> f r (str_replace s (hd m) (replacement r))) = Some y"
  show "str_match y (pattern r) = None"
  proof (cases "str_match s (pattern r)")
    case None
    with eq show ?thesis by simp
  next
    case (Some m)
    with eq have "f r (str_replace s (hd m) (replacement r)) = Some y" by simp
    then show ?thesis by (rule IH)
  qed
qed

lemma apply_diverges:
  "UrlReplacer_apply \<lparr>pattern = Lit ''a'', replacement = ''a''\<rparr> ''a'' = None"
proof -
  have "\<not> (r = \<lparr>pattern = Lit ''a'', replacement = ''a''\<rparr> \<and> s = ''a'')"
    if run: "UrlReplacer_apply r s = Some y" for r s y
  proof (rule UrlReplacer_apply.raw_induct[where
        P = "\<lambda>r s y. \<not> (r = \<lparr>pattern = Lit ''a'', replacement = ''a''\<rparr> \<and> s = ''a'')", OF _ run])
    fix f r s y
    assume IH: "\<And>r s y. f r s = Some y \<Longrightarrow>
        \<not> (r = \<lparr>pattern = Lit ''a'', replacement = ''a''\<rparr> \<and> s = ''a'')"
      and eq: "(case str_match s (pattern r) of None \<Rightarrow> Some s
        | Some m \<Rightarrow> f r (str_replace s (hd m) (replacement r))) = Some y"
    show "\<not> (r = \<lparr>pattern = Lit ''a'', replacement = ''a''\<rparr> \<and> s = ''a'')"
    proof
      assume here: "r = \<lparr>pattern = Lit ''a'', replacement = ''a''\<rparr> \<and> s = ''a''"
      with eq have "f r s = Some y"
        by (simp add: str_match_def exec_all.simps exec_at_def str_replace_def)
      from IH[OF this] here show False by simp
    qed
  qed
  then show ?thesis
    by (cases "UrlReplacer_apply \<lparr>pattern = Lit ''a'', replacement = ''a''\<rparr> ''a''") auto
qed

lemma apply_no_match: "str_match s (pattern r) = None \<Longrightarrow> UrlReplacer_apply r s = Some s"
  by (simp add: UrlReplacer_apply.simps[of r s])

lemma fold_no_match:
  "(\<forall>r\<in>set rs. str_match s (pattern r) = None) \<Longrightarrow>
     foldl (\<lambda>currentText replacer. Option.bind currentText (UrlReplacer_apply replacer))
       (Some s) rs = Some s"
  by (induction rs) (simp_all add: apply_no_match)

lemma fixed_keeps:
  assumes r: "r \<in> set replacers" and r': "r' \<in> set replacers"
    and free: "str_match s (pattern r') = None"
    and run: "UrlReplacer_apply r s = Some y"
  shows "str_match y (pattern r') = None"
proof -
  have ex': "\<And>b a. exec_at (pattern r') b a = hit (words (pattern r') []) a"
    by (rule fixed_exec[OF r'])
  from free have "clean (words (pattern r') []) ([] @ s) []"
    using str_match_None_iff[OF ex' fixed_anchored[OF r' r'], of s] by simp
  then have "clean (words (pattern r') []) ([] @ sweep (words (pattern r) []) (replacement r) s) []"
    by (rule sweep_keeps_clean[OF fixed_anchored[OF r r] fixed_anchored[OF r' r]])
  with run fixed_apply[OF r, of s] show ?thesis
    using str_match_None_iff[OF ex' fixed_anchored[OF r' r'], of y] by simp
qed

lemma detect_steps:
  assumes "s \<noteq> []"
  shows "\<exists>y1 y2 y3. UrlReplacer_apply (replacers ! 0) s = Some y1 \<and>
     UrlReplacer_apply (replacers ! 1) y1 = Some y2 \<and>
     UrlReplacer_apply (replacers ! 2) y2 = Some y3 \<and> detectAndFixLinks s = Some y3"
proof -
  have in0: "replacers ! 0 \<in> set replacers" and in1: "replacers ! 1 \<in> set replacers"
    and in2: "replacers ! 2 \<in> set replacers" by (simp_all add: replacers_def)
  obtain y1 where y1: "UrlReplacer_apply (replacers ! 0) s = Some y1"
    using fixed_apply[OF in0] by blast
  obtain y2 where y2: "UrlReplacer_apply (replacers ! 1) y1 = Some y2"
    using fixed_apply[OF in1] by blast
  obtain y3 where y3: "UrlReplacer_apply (replacers ! 2) y2 = Some y3"
    using fixed_apply[OF in2] by blast
  have "detectAndFixLinks s =
      foldl (\<lambda>currentText replacer. Option.bind currentText (UrlReplacer_apply replacer))
        (Some s) [replacers ! 0, replacers ! 1, replacers ! 2]"
    using assms replacers_list by (simp add: detectAndFixLinks_def)
  with y1 y2 y3 show ?thesis by simp
qed

lemma detect_total: "\<exists>y. detectAndFixLinks s = Some y"
proof (cases "s = []")
  case True
  then show ?thesis by (simp add: detectAndFixLinks_def)
next
  case False
  from detect_steps[OF this] show ?thesis by blast
qed

lemma detect_fixed_point:
  assumes "detectAndFixLinks s = Some y"
  shows "detectAndFixLinks y = Some y"
proof (cases "s = []")
  case True
  with assms show ?thesis by (simp add: detectAndFixLinks_def)
next
  case False
  have in0: "replacers ! 0 \<in> set replacers" and in1: "replacers ! 1 \<in> set replacers"
    and in2: "replacers ! 2 \<in> set replacers" by (simp_all add: replacers_def)
  from detect_steps[OF False] assms obtain y1 y2 where
    y1: "UrlReplacer_apply (replacers ! 0) s = Some y1" and
    y2: "UrlReplacer_apply (replacers ! 1) y1 = Some y2" and
    y3: "UrlReplacer_apply (replacers ! 2) y2 = Some y" by auto
  have "str_match y (pattern (replacers ! 0)) = None"
    using fixed_keeps[OF in2 in0 fixed_keeps[OF in1 in0 apply_exit[OF y1] y2] y3] .
  moreover have "str_match y (pattern (replacers ! 1)) = None"
    using fixed_keeps[OF in2 in1 apply_exit[OF y2] y3] .
  moreover have "str_match y (pattern (replacers ! 2)) = None"
    using apply_exit[OF y3] .
  ultimately have "\<forall>r\<in>set replacers. str_match y (pattern r) = None"
    by (auto dest: replacers_cases)
  then show ?thesis by (simp add: detectAndFixLinks_def fold_no_match)
qed

lemma sweep_nonempty:
  assumes "anchored h W rep" and "a \<noteq> []"
  shows "sweep W rep a \<noteq> []"
proof (cases a)
  case Nil
  with assms show ?thesis by simp
next
  case (Cons c cs)
  from anchored_rep[OF assms(1)] have "rep \<noteq> []" by auto
  with Cons show ?thesis by (cases "hit W (c # cs)") auto
qed

lemma detect_nonempty:
  assumes "s \<noteq> []" and "detectAndFixLinks s = Some y"
  shows "y \<noteq> []"
proof -
  have in0: "replacers ! 0 \<in> set replacers" and in1: "replacers ! 1 \<in> set replacers"
    and in2: "replacers ! 2 \<in> set replacers" by (simp_all add: replacers_def)
  from detect_steps[OF assms(1)] assms(2) obtain y1 y2 where
    y1: "UrlReplacer_apply (replacers ! 0) s = Some y1" and
    y2: "UrlReplacer_apply (replacers ! 1) y1 = Some y2" and
    y3: "UrlReplacer_apply (replacers ! 2) y2 = Some y" by auto
  from y1 fixed_apply[OF in0, of s]
  have "y1 = sweep (words (pattern (replacers ! 0)) []) (replacement (replacers ! 0)) s"
    by simp
  with sweep_nonempty[OF fixed_anchored[OF in0 in0] assms(1)] have n1: "y1 \<noteq> []" by simp
  from y2 fixed_apply[OF in1, of y1]
  have "y2 = sweep (words (pattern (replacers ! 1)) []) (replacement (replacers ! 1)) y1"
    by simp
  with sweep_nonempty[OF fixed_anchored[OF in1 in1] n1] have n2: "y2 \<noteq> []" by simp
  from y3 fixed_apply[OF in2, of y2]
  have "y = sweep (words (pattern (replacers ! 2)) []) (replacement (replacers ! 2)) y2"
    by simp
  with sweep_nonempty[OF fixed_anchored[OF in2 in2] n2] show ?thesis by simp
qed

section \<open>Facts about a tick\<close>

lemma tick_disabled:
  "\<not> isMonitoringEnabled m \<Longrightarrow> checkClipboard plat rd wr m = Some (m, [])"
  by (simp add: checkClipboard_def)

lemma tick_empty_read:
  "readClipboard plat rd = [] \<Longrightarrow>
     checkClipboard plat rd wr m = Some (m, if isMonitoringEnabled m then [ReadCall] else [])"
  by (simp add: checkClipboard_def)

lemma tick_unchanged:
  "isMonitoringEnabled m \<Longrightarrow> readClipboard plat rd = lastClipboardContent m \<Longrightarrow>
     checkClipboard plat rd wr m = Some (m, [ReadCall])"
  by (simp add: checkClipboard_def Let_def)

lemma tick_rewrites:
  assumes "isMonitoringEnabled m" and "readClipboard plat rd = c" and "c \<noteq> []"
    and "c \<noteq> lastClipboardContent m" and "detectAndFixLinks c = Some t" and "t \<noteq> c"
  shows "checkClipboard plat rd wr m =
     Some (m\<lparr>lastClipboardContent := t\<rparr>,
       [ReadCall, WriteCall t] @ (if writeClipboard plat wr t then [] else [WriteFailedLogged]))"
proof -
  from detect_nonempty[OF assms(3) assms(5)] have "t \<noteq> []" .
  with assms show ?thesis by (simp add: checkClipboard_def Let_def)
qed

lemma tick_total: "\<exists>m' fx. checkClipboard plat rd wr m = Some (m', fx)"
proof -
  obtain y where "detectAndFixLinks (readClipboard plat rd) = Some y"
    using detect_total by blast
  then show ?thesis by (simp add: checkClipboard_def Let_def)
qed

lemma tick_last:
  assumes "checkClipboard plat rd wr m = Some (m', fx)"
  shows "isMonitoringEnabled m' = isMonitoringEnabled m \<and>
    (lastClipboardContent m' = lastClipboardContent m \<or> lastClipboardContent m' \<noteq> [])"
proof -
  obtain y where y: "detectAndFixLinks (readClipboard plat rd) = Some y"
    using detect_total by blast
  with assms show ?thesis
    by (auto simp: checkClipboard_def Let_def split: if_splits)
qed

lemma run_last:
  "run evs m = Some (m', fx) \<Longrightarrow>
     lastClipboardContent m' = lastClipboardContent m \<or> lastClipboardContent m' \<noteq> []"
proof (induction evs arbitrary: m fx)
  case Nil
  then show ?case by simp
next
  case (Cons e evs)
  show ?case
  proof (cases e)
    case Toggle
    with Cons.prems have "run evs (toggleMonitoring m) = Some (m', fx)" by simp
    from Cons.IH[OF this] show ?thesis by (auto simp: toggleMonitoring_def)
  next
    case (Tick plat rd wr)
    with Cons.prems obtain m1 fx1 fx2 where
      t: "checkClipboard plat rd wr m = Some (m1, fx1)" and r: "run evs m1 = Some (m', fx2)"
      by (auto split: option.splits)
    from tick_last[OF t] Cons.IH[OF r] show ?thesis by auto
  qed
qed

lemma run_total: "\<exists>m' fx. run evs m = Some (m', fx)"
proof (induction evs arbitrary: m)
  case Nil
  show ?case by simp
next
  case (Cons e evs)
  show ?case
  proof (cases e)
    case Toggle
    with Cons[of "toggleMonitoring m"] show ?thesis by simp
  next
    case (Tick plat rd wr)
    from tick_total[of plat rd wr m] obtain m1 fx1 where
      t: "checkClipboard plat rd wr m = Some (m1, fx1)" by blast
    from Cons[of m1] obtain m2 fx2 where "run evs m1 = Some (m2, fx2)" by blast
    with t Tick show ?thesis by simp
  qed
qed

lemma run_disabled:
  "\<not> isMonitoringEnabled m \<Longrightarrow>
     run (map (\<lambda>(plat, rd, wr). Tick plat rd wr) ins) m = Some (m, [])"
  by (induction ins) (auto simp: tick_disabled)

lemmas run_simps =
  detectAndFixLinks_def replacers_def UrlReplacer_apply.simps str_match_def exec_all.simps
  exec_at_def str_replace_def suffix_to_prefix

section \<open>The rewrite\<close>

text \<open>
  C3. As stated the claim fails: \<^verbatim>\<open>UrlReplacer.apply\<close> has no guard against a
  replacement that makes no progress. The rule that replaces \<^verbatim>\<open>a\<close> by \<^verbatim>\<open>a\<close>
  keeps finding the same match in the text \<^verbatim>\<open>a\<close>, and the loop never returns.
\<close>

theorem apply_without_progress_diverges:
  "UrlReplacer_apply \<lparr>pattern = Lit ''a'', replacement = ''a''\<rparr> ''a'' = None"
  by (rule apply_diverges)

text \<open>
  C3, amended. For each of the three rules of the monitor and every input text,
  \<^verbatim>\<open>UrlReplacer.apply\<close> returns: a replacement of these rules never contains or
  completes a further match of the rule's pattern.
\<close>

theorem configured_rules_terminate:
  "r \<in> set replacers \<Longrightarrow> \<exists>y. UrlReplacer_apply r s = Some y"
  by (simp add: fixed_apply)

theorem configured_rules_terminate_witness:
  "replacers ! 0 \<in> set replacers \<and>
   (\<exists>y. UrlReplacer_apply (replacers ! 0) ''http://x.com/a https://twitter.com/b'' = Some y)"
  using configured_rules_terminate[of "replacers ! 0" "''http://x.com/a https://twitter.com/b''"]
  by (simp add: replacers_def)

text \<open>
  C4. The rewrite is idempotent: for every text, \<^verbatim>\<open>detectAndFixLinks\<close> returns a text
  that \<^verbatim>\<open>detectAndFixLinks\<close> maps to itself.
\<close>

theorem detectAndFixLinks_idempotent:
  "\<exists>y. detectAndFixLinks s = Some y \<and> detectAndFixLinks y = Some y"
  using detect_total[of s] detect_fixed_point[of s] by blast

text \<open>
  C5. A text in which no rule's pattern has a match is returned unchanged, and so is
  the empty text.
\<close>

theorem detectAndFixLinks_identity:
  "detectAndFixLinks [] = Some [] \<and>
   ((\<forall>r\<in>set replacers. str_match s (pattern r) = None) \<longrightarrow> detectAndFixLinks s = Some s)"
  by (simp add: detectAndFixLinks_def fold_no_match)

theorem detectAndFixLinks_identity_witness:
  "str_match ''see http://example.com/x.com'' (pattern (replacers ! 0)) = None \<and>
   str_match ''see http://example.com/x.com'' (pattern (replacers ! 1)) = None \<and>
   str_match ''see http://example.com/x.com'' (pattern (replacers ! 2)) = None \<and>
   detectAndFixLinks ''see http://example.com/x.com'' = Some ''see http://example.com/x.com''"
proof -
  have free: "\<forall>r\<in>set replacers. str_match ''see http://example.com/x.com'' (pattern r) = None"
    by (simp add: replacers_def str_match_def exec_all.simps exec_at_def)
  then have "str_match ''see http://example.com/x.com'' (pattern (replacers ! 0)) = None"
    and "str_match ''see http://example.com/x.com'' (pattern (replacers ! 1)) = None"
    and "str_match ''see http://example.com/x.com'' (pattern (replacers ! 2)) = None"
    by (simp_all add: replacers_def)
  with free detectAndFixLinks_identity[of "''see http://example.com/x.com''"] show ?thesis
    by blast
qed

text \<open>
  C6. As stated, for any rule, the claim fails: \<^verbatim>\<open>UrlReplacer.apply\<close> searches the
  updated text again after each replacement, so a replacement can complete a new match.
  The rule that replaces \<^verbatim>\<open>ab\<close> by \<^verbatim>\<open>b\<close> has one match in \<^verbatim>\<open>aab\<close>, at index 1;
  replacing that match where it stands gives \<^verbatim>\<open>ab\<close>, but the loop replaces twice and
  returns \<^verbatim>\<open>b\<close>.
\<close>

theorem apply_rematches_its_output:
  "exec_all (Lit ''ab'') [] ''aab'' = [(1, ''ab'')] \<and>
   splice_matches ''aab'' ''b'' (exec_all (Lit ''ab'') [] ''aab'') 0 = ''ab'' \<and>
   UrlReplacer_apply \<lparr>pattern = Lit ''ab'', replacement = ''b''\<rparr> ''aab'' = Some ''b''"
  by (simp add: UrlReplacer_apply.simps str_match_def exec_all.simps exec_at_def str_replace_def)

text \<open>
  C6, amended. For each of the three rules of the monitor and every text \<open>s\<close>: when the
  pattern has the \<open>N\<close> matches \<open>exec_all (pattern r) [] s\<close> in \<open>s\<close>, \<^verbatim>\<open>UrlReplacer.apply\<close>
  returns \<open>s\<close> with each of these \<open>N\<close> matches replaced, where it stands, by the
  replacement, and the pattern has no match in the result.
\<close>

theorem apply_replaces_every_match:
  "r \<in> set replacers \<Longrightarrow> length (exec_all (pattern r) [] s) = N \<Longrightarrow>
     UrlReplacer_apply r s = Some (splice_matches s (replacement r) (exec_all (pattern r) [] s) 0) \<and>
     length (exec_all (pattern r) [] s) = N \<and>
     str_match (splice_matches s (replacement r) (exec_all (pattern r) [] s) 0) (pattern r) = None"
  using apply_exit[of r s "splice_matches s (replacement r) (exec_all (pattern r) [] s) 0"]
  by (simp add: fixed_apply fixed_splice)

theorem apply_replaces_every_match_witness:
  "replacers ! 1 \<in> set replacers \<and>
   exec_all (pattern (replacers ! 1)) [] ''a https://instagram.com/p http://instagram.com'' =
     [(2, ''https://instagram.com''), (26, ''http://instagram.com'')] \<and>
   UrlReplacer_apply (replacers ! 1) ''a https://instagram.com/p http://instagram.com'' =
     Some ''a https://ddinstagram.com/p https://ddinstagram.com''"
proof -
  have r: "replacers ! 1 \<in> set replacers" by (simp add: replacers_def)
  have m: "exec_all (pattern (replacers ! 1)) [] ''a https://instagram.com/p http://instagram.com'' =
      [(2, ''https://instagram.com''), (26, ''http://instagram.com'')]"
    by (simp add: replacers_def exec_all.simps exec_at_def suffix_to_prefix)
  from m have n: "length (exec_all (pattern (replacers ! 1)) []
      ''a https://instagram.com/p http://instagram.com'') = 2" by simp
  from apply_replaces_every_match[OF r n] r m show ?thesis
    by (simp add: replacers_def)
qed

text \<open>C8. The already fixed URL \<^verbatim>\<open>https://fixupx.com/foo\<close> is returned unchanged.\<close>

theorem fixed_url_untouched:
  "detectAndFixLinks ''https://fixupx.com/foo'' = Some ''https://fixupx.com/foo''"
  by (simp add: run_simps)

text \<open>
  C9. The text \<^verbatim>\<open>check this out http://twitter.com/foo\<close> is rewritten to
  \<^verbatim>\<open>check this out https://fixupx.com/foo\<close>, and so is its \<^verbatim>\<open>https\<close> form.
\<close>

theorem twitter_url_rewritten:
  "detectAndFixLinks ''check this out http://twitter.com/foo'' =
     Some ''check this out https://fixupx.com/foo'' \<and>
   detectAndFixLinks ''check this out https://twitter.com/foo'' =
     Some ''check this out https://fixupx.com/foo''"
  by (simp add: run_simps)

section \<open>The clipboard loop\<close>

text \<open>
  C1. The claim says that a failed write-back leaves \<^verbatim>\<open>lastClipboardContent\<close> at the
  text that was read. \<^verbatim>\<open>checkClipboard\<close> does not do so: the assignment of the
  transformed text follows the write attempt whatever \<^verbatim>\<open>writeClipboard\<close> returned. With
  the clipboard holding \<^verbatim>\<open>http://x.com\<close> and a failing write, the tick ends with
  \<^verbatim>\<open>lastClipboardContent\<close> equal to \<^verbatim>\<open>https://fixupx.com\<close>, and the next tick, the
  clipboard being unchanged, processes the same text and attempts the write again.
\<close>

theorem failed_write_still_sets_last:
  "readClipboard Linux (Some ''http://x.com'') = ''http://x.com'' \<and>
   writeClipboard Linux False ''https://fixupx.com'' = False \<and>
   checkClipboard Linux (Some ''http://x.com'') False new_ClipboardMonitor =
     Some (new_ClipboardMonitor\<lparr>lastClipboardContent := ''https://fixupx.com''\<rparr>,
           [ReadCall, WriteCall ''https://fixupx.com'', WriteFailedLogged]) \<and>
   run [Tick Linux (Some ''http://x.com'') False, Tick Linux (Some ''http://x.com'') False]
       new_ClipboardMonitor =
     Some (new_ClipboardMonitor\<lparr>lastClipboardContent := ''https://fixupx.com''\<rparr>,
           [ReadCall, WriteCall ''https://fixupx.com'', WriteFailedLogged,
            ReadCall, WriteCall ''https://fixupx.com'', WriteFailedLogged])"
  by (simp add: checkClipboard_def new_ClipboardMonitor_def trim_def is_white_def run_simps)

text \<open>
  C2. In a tick that reads a new, non-empty text \<open>c\<close> whose transformed text \<open>t\<close> differs
  from \<open>c\<close> and whose write-back succeeds, \<^verbatim>\<open>lastClipboardContent\<close> equals \<open>t\<close> when the
  tick ends; a following tick that reads \<open>t\<close> back calls the read function only, writes
  nothing and leaves the monitor as it is.
\<close>

theorem own_write_not_reprocessed:
  assumes "isMonitoringEnabled m" and "readClipboard plat rd = c" and "c \<noteq> []"
    and "c \<noteq> lastClipboardContent m" and "detectAndFixLinks c = Some t" and "t \<noteq> c"
    and "writeClipboard plat wr t" and "readClipboard plat' rd' = t"
  shows "checkClipboard plat rd wr m =
       Some (m\<lparr>lastClipboardContent := t\<rparr>, [ReadCall, WriteCall t]) \<and>
     lastClipboardContent (m\<lparr>lastClipboardContent := t\<rparr>) = t \<and>
     checkClipboard plat' rd' wr' (m\<lparr>lastClipboardContent := t\<rparr>) =
       Some (m\<lparr>lastClipboardContent := t\<rparr>, [ReadCall])"
proof -
  have "checkClipboard plat rd wr m =
      Some (m\<lparr>lastClipboardContent := t\<rparr>, [ReadCall, WriteCall t])"
    using tick_rewrites[OF assms(1-6), of wr] assms(7) by simp
  moreover have "checkClipboard plat' rd' wr' (m\<lparr>lastClipboardContent := t\<rparr>) =
      Some (m\<lparr>lastClipboardContent := t\<rparr>, [ReadCall])"
    using assms(1) assms(8) by (simp add: tick_unchanged)
  ultimately show ?thesis by simp
qed

theorem own_write_not_reprocessed_witness:
  "isMonitoringEnabled new_ClipboardMonitor \<and>
   readClipboard Win32 (Some ''look: http://instagram.com/p  '') = ''look: http://instagram.com/p'' \<and>
   detectAndFixLinks ''look: http://instagram.com/p'' = Some ''look: https://ddinstagram.com/p'' \<and>
   writeClipboard Win32 True ''look: https://ddinstagram.com/p'' \<and>
   readClipboard Win32 (Some ''look: https://ddinstagram.com/p'') = ''look: https://ddinstagram.com/p'' \<and>
   checkClipboard Win32 (Some ''look: http://instagram.com/p  '') True new_ClipboardMonitor =
     Some (new_ClipboardMonitor\<lparr>lastClipboardContent := ''look: https://ddinstagram.com/p''\<rparr>,
           [ReadCall, WriteCall ''look: https://ddinstagram.com/p'']) \<and>
   checkClipboard Win32 (Some ''look: https://ddinstagram.com/p'') True
       (new_ClipboardMonitor\<lparr>lastClipboardContent := ''look: https://ddinstagram.com/p''\<rparr>) =
     Some (new_ClipboardMonitor\<lparr>lastClipboardContent := ''look: https://ddinstagram.com/p''\<rparr>,
           [ReadCall])"
proof -
  have h1: "isMonitoringEnabled new_ClipboardMonitor"
    by (simp add: new_ClipboardMonitor_def)
  have h2: "readClipboard Win32 (Some ''look: http://instagram.com/p  '') =
      ''look: http://instagram.com/p''"
    by (simp add: trim_def is_white_def)
  have h3: "''look: http://instagram.com/p'' \<noteq> []" by simp
  have h4: "''look: http://instagram.com/p'' \<noteq> lastClipboardContent new_ClipboardMonitor"
    by (simp add: new_ClipboardMonitor_def)
  have h5: "detectAndFixLinks ''look: http://instagram.com/p'' =
      Some ''look: https://ddinstagram.com/p''"
    by (simp add: run_simps)
  have h6: "''look: https://ddinstagram.com/p'' \<noteq> ''look: http://instagram.com/p''" by simp
  have h7: "writeClipboard Win32 True ''look: https://ddinstagram.com/p''" by simp
  have h8: "readClipboard Win32 (Some ''look: https://ddinstagram.com/p'') =
      ''look: https://ddinstagram.com/p''"
    by (simp add: trim_def is_white_def)
  from own_write_not_reprocessed[OF h1 h2 h3 h4 h5 h6 h7 h8, of True] h1 h2 h5 h7 h8
  show ?thesis by simp
qed

text \<open>
  C7. While monitoring is disabled, every sequence of ticks, whatever the host does,
  calls neither the read nor the write function and leaves the monitor, and with it
  \<^verbatim>\<open>lastClipboardContent\<close>, as it is.
\<close>

theorem disabled_ticks_do_nothing:
  "\<not> isMonitoringEnabled m \<Longrightarrow>
     run (map (\<lambda>(plat, rd, wr). Tick plat rd wr) ins) m = Some (m, [])"
  by (rule run_disabled)

theorem disabled_ticks_do_nothing_witness:
  "\<not> isMonitoringEnabled (toggleMonitoring new_ClipboardMonitor) \<and>
   run [Tick Linux (Some ''http://x.com'') True, Tick Win32 None False,
        Tick Darwin (Some ''https://tiktok.com'') True] (toggleMonitoring new_ClipboardMonitor) =
     Some (toggleMonitoring new_ClipboardMonitor, [])"
proof -
  have off: "\<not> isMonitoringEnabled (toggleMonitoring new_ClipboardMonitor)"
    by (simp add: toggleMonitoring_def new_ClipboardMonitor_def)
  from disabled_ticks_do_nothing[OF off,
      of "[(Linux, Some ''http://x.com'', True), (Win32, None, False),
           (Darwin, Some ''https://tiktok.com'', True)]"] off
  show ?thesis by simp
qed

text \<open>
  C10. A failed read surfaces as the empty text; a tick that reads the empty text
  leaves the monitor as it is; and over every sequence of ticks and toggles
  \<^verbatim>\<open>lastClipboardContent\<close> either keeps the value it had or holds a non-empty text, so
  it is never set to the empty text.
\<close>

theorem last_content_never_emptied:
  "readClipboard plat None = [] \<and>
   (readClipboard plat rd = [] \<longrightarrow>
      checkClipboard plat rd wr m = Some (m, if isMonitoringEnabled m then [ReadCall] else [])) \<and>
   (\<exists>m' fx. run evs m = Some (m', fx) \<and>
      (lastClipboardContent m' = lastClipboardContent m \<or> lastClipboardContent m' \<noteq> []))"
proof -
  have "readClipboard plat None = []" by (cases plat) simp_all
  moreover obtain m' fx where r: "run evs m = Some (m', fx)" using run_total by blast
  moreover note run_last[OF r] tick_empty_read[of plat rd wr m]
  ultimately show ?thesis by blast
qed

theorem last_content_never_emptied_witness:
  "readClipboard Linux (Some ''   '') = [] \<and>
   checkClipboard Linux (Some ''   '') True new_ClipboardMonitor =
     Some (new_ClipboardMonitor, [ReadCall]) \<and>
   run [Tick Linux (Some ''http://x.com'') True, Tick Linux None True, Toggle,
        Tick OtherPlatform (Some ''q'') True] new_ClipboardMonitor =
     Some (toggleMonitoring (new_ClipboardMonitor\<lparr>lastClipboardContent := ''https://fixupx.com''\<rparr>),
           [ReadCall, WriteCall ''https://fixupx.com'', ReadCall]) \<and>
   lastClipboardContent
     (toggleMonitoring (new_ClipboardMonitor\<lparr>lastClipboardContent := ''https://fixupx.com''\<rparr>)) \<noteq> []"
proof -
  have h1: "readClipboard Linux (Some ''   '') = []"
    by (simp add: trim_def is_white_def)
  have h2: "run [Tick Linux (Some ''http://x.com'') True, Tick Linux None True, Toggle,
        Tick OtherPlatform (Some ''q'') True] new_ClipboardMonitor =
     Some (toggleMonitoring (new_ClipboardMonitor\<lparr>lastClipboardContent := ''https://fixupx.com''\<rparr>),
           [ReadCall, WriteCall ''https://fixupx.com'', ReadCall])"
    by (simp add: checkClipboard_def new_ClipboardMonitor_def toggleMonitoring_def trim_def
        is_white_def run_simps)
  from last_content_never_emptied[of Linux "Some ''   ''" True new_ClipboardMonitor
      "[Tick Linux (Some ''http://x.com'') True, Tick Linux None True, Toggle,
        Tick OtherPlatform (Some ''q'') True]"] h1 h2
  show ?thesis
    by (simp add: new_ClipboardMonitor_def toggleMonitoring_def)
qed

end
